theory Spec2Isabelle
  imports Complex_Main
begin

unbundle bit_operations_syntax

section \<open>The hash table of \<^verbatim>\<open>src/Hash_tables.py\<close>\<close>

text \<open>
  A shallow embedding of the class \<^verbatim>\<open>HashTable\<close>: separate chaining, growth checked at
  the start of \<^verbatim>\<open>put\<close>, shrinking checked after a successful \<^verbatim>\<open>delete\<close>, and a
  \<^verbatim>\<open>_resize\<close> that reinserts every entry through \<^verbatim>\<open>put\<close>.

  Modelling decisions.
  \<^item> Python's built-in \<^verbatim>\<open>hash()\<close> is not code of the repository. It is a parameter
    \<open>H :: 'k \<Rightarrow> int option\<close> of every operation that hashes: \<open>H k = Some h\<close> when
    \<^verbatim>\<open>hash(k)\<close> is the integer \<open>h\<close> (of either sign), \<open>H k = None\<close> when \<^verbatim>\<open>hash(k)\<close>
    raises \<^verbatim>\<open>TypeError\<close> (the key is unhashable).
  \<^item> Key comparison \<^verbatim>\<open>k == key\<close> is HOL equality on the key type: keys that compare
    equal (and then hash alike) are one key, and every key equals itself. A key whose
    \<^verbatim>\<open>==\<close> is not reflexive, such as a float NaN, is outside the model.
  \<^item> A Python value is a \<open>'v pyval\<close>: \<open>PyNone\<close> is \<^verbatim>\<open>None\<close>, which the source uses as
    the default of \<^verbatim>\<open>get\<close> and as the result of \<^verbatim>\<open>delete\<close> on a missing key.
  \<^item> \<^verbatim>\<open>size\<close>, \<^verbatim>\<open>threshold\<close> and \<^verbatim>\<open>count\<close> are unbounded Python integers: \<open>int\<close>.
  \<^item> \<^verbatim>\<open>load_factor\<close> is a rational number and \<^verbatim>\<open>int(size * load_factor)\<close> is exact
    truncation towards zero. A finite Python float is a rational, and its product with a
    power of two is computed without rounding as long as it does not overflow.
  \<^item> An exception is a value: every operation that mutates returns the container as the
    exception leaves it, paired with \<open>Inl\<close> of the error or \<open>Inr\<close> of the result.
  \<^item> The generators \<^verbatim>\<open>items\<close>, \<^verbatim>\<open>keys\<close> and \<^verbatim>\<open>values\<close> are the finite lists
    of what they yield, in order.
\<close>

subsection \<open>Data\<close>

datatype error = ValueError | TypeError | ZeroDivisionError | IndexError

datatype 'v pyval = PyNone | Val 'v

record ('k, 'v) HashTable =
  size_ht :: int
  load_factor :: rat
  threshold :: int
  count :: int
  table :: "('k \<times> 'v pyval) list list"

subsection \<open>Python primitives the class uses\<close>

text \<open>\<^verbatim>\<open>int(x)\<close> on a float: truncation towards zero.\<close>

definition py_int :: "rat \<Rightarrow> int" where
  "py_int x = (if 0 \<le> x then \<lfloor>x\<rfloor> else \<lceil>x\<rceil>)"

text \<open>
  \<^verbatim>\<open>xs[i]\<close> on a list: a negative index counts from the end, anything outside
  \<^verbatim>\<open>-len(xs) <= i < len(xs)\<close> raises \<^verbatim>\<open>IndexError\<close>. The result is the position read.
\<close>

definition py_index :: "'a list \<Rightarrow> int \<Rightarrow> error + nat" where
  "py_index xs i =
     (let n = int (length xs); j = (if i < 0 then n + i else i)
      in if 0 \<le> j \<and> j < n then Inr (nat j) else Inl IndexError)"

text \<open>\<^verbatim>\<open>del xs[i]\<close> at a position inside the list.\<close>

definition del_at :: "nat \<Rightarrow> 'a list \<Rightarrow> 'a list" where
  "del_at i xs = take i xs @ drop (Suc i) xs"

subsection \<open>Construction and hashing\<close>

text \<open>\<^verbatim>\<open>_is_power_of_two\<close> (line 27): \<^verbatim>\<open>(n & (n - 1)) == 0 and n != 0\<close>.\<close>

definition is_power_of_two :: "int \<Rightarrow> bool" where
  "is_power_of_two n \<longleftrightarrow> (n AND (n - 1)) = 0 \<and> n \<noteq> 0"

text \<open>\<^verbatim>\<open>__init__\<close> (line 10).\<close>

definition init :: "int \<Rightarrow> rat \<Rightarrow> error + ('k, 'v) HashTable" where
  "init initial_size lf =
     (if \<not> is_power_of_two initial_size then Inl ValueError
      else Inr \<lparr> size_ht = initial_size,
                 load_factor = lf,
                 threshold = py_int (of_int initial_size * lf),
                 count = 0,
                 table = replicate (nat initial_size) [] \<rparr>)"

text \<open>
  \<^verbatim>\<open>_hash\<close> (line 31): \<^verbatim>\<open>hash(key) % self.size\<close>. Python's \<^verbatim>\<open>%\<close> on integers is the
  floored remainder, as \<open>mod\<close> on \<open>int\<close> is; a zero divisor raises.
\<close>

definition hash :: "('k \<Rightarrow> int option) \<Rightarrow> ('k, 'v) HashTable \<Rightarrow> 'k \<Rightarrow> error + int" where
  "hash H s key =
     (case H key of
        None \<Rightarrow> Inl TypeError
      | Some h \<Rightarrow> if size_ht s = 0 then Inl ZeroDivisionError else Inr (h mod size_ht s))"

subsection \<open>Scanning a chain\<close>

text \<open>
  The loops \<^verbatim>\<open>for i, (k, v) in enumerate(bucket): if k == key: ...\<close> of \<^verbatim>\<open>put\<close> and
  \<^verbatim>\<open>delete\<close> act on the first position whose key equals \<^verbatim>\<open>key\<close> and leave the loop;
  \<open>find_key\<close> is that position.
\<close>

fun find_key :: "'k \<Rightarrow> ('k \<times> 'v) list \<Rightarrow> nat option" where
  "find_key key [] = None"
| "find_key key ((k, v) # bucket) =
     (if k = key then Some 0 else map_option Suc (find_key key bucket))"

subsection \<open>put and resize\<close>

text \<open>
  Lines 72 to 83 of \<^verbatim>\<open>put\<close>, after the growth check: hash the key, read the bucket,
  replace the value of the first entry with this key or append a new entry and
  increment \<^verbatim>\<open>count\<close>. The bucket is mutated in place, so the table changes at the
  position read.
\<close>

definition put_entry ::
  "('k \<Rightarrow> int option) \<Rightarrow> ('k, 'v) HashTable \<Rightarrow> 'k \<Rightarrow> 'v pyval \<Rightarrow> ('k, 'v) HashTable \<times> (error + unit)"
where
  "put_entry H s key val =
     (case hash H s key of
        Inl e \<Rightarrow> (s, Inl e)
      | Inr index \<Rightarrow>
          (case py_index (table s) index of
             Inl e \<Rightarrow> (s, Inl e)
           | Inr b \<Rightarrow>
               (let bucket = table s ! b in
                case find_key key bucket of
                  Some i \<Rightarrow> (s\<lparr>table := (table s)[b := bucket[i := (key, val)]]\<rparr>, Inr ())
                | None \<Rightarrow>
                    (s\<lparr>table := (table s)[b := bucket @ [(key, val)]],
                       count := count s + 1\<rparr>, Inr ()))))"

text \<open>
  \<^verbatim>\<open>put\<close> (line 59) and \<^verbatim>\<open>_resize\<close> (line 38) call each other. \<open>rehash\<close> is the loop of
  lines 55 to 57 over the entries of the old table, bucket by bucket: the old table is
  no longer the container's table when the loop runs, so nothing mutates it and the
  loop sees \<open>concat\<close> of it. An exception in a reinsertion leaves the loop.
\<close>

function (domintros)
  put :: "('k \<Rightarrow> int option) \<Rightarrow> ('k, 'v) HashTable \<Rightarrow> 'k \<Rightarrow> 'v pyval
            \<Rightarrow> ('k, 'v) HashTable \<times> (error + unit)"
and resize :: "('k \<Rightarrow> int option) \<Rightarrow> ('k, 'v) HashTable \<Rightarrow> int
            \<Rightarrow> ('k, 'v) HashTable \<times> (error + unit)"
and rehash :: "('k \<Rightarrow> int option) \<Rightarrow> ('k, 'v) HashTable \<Rightarrow> ('k \<times> 'v pyval) list
            \<Rightarrow> ('k, 'v) HashTable \<times> (error + unit)"
where
  "put H s key val =
     (if count s \<ge> threshold s then
        (case resize H s (size_ht s * 2) of
           (s1, Inl e) \<Rightarrow> (s1, Inl e)
         | (s1, Inr u) \<Rightarrow> put_entry H s1 key val)
      else put_entry H s key val)"
| "resize H s new_size =
     (if \<not> is_power_of_two new_size then (s, Inl ValueError)
      else rehash H (s\<lparr>size_ht := new_size,
                        threshold := py_int (of_int new_size * load_factor s),
                        table := replicate (nat new_size) [],
                        count := 0\<rparr>)
                    (concat (table s)))"
| "rehash H s [] = (s, Inr ())"
| "rehash H s ((key, val) # rest) =
     (case put H s key val of
        (s1, Inl e) \<Rightarrow> (s1, Inl e)
      | (s1, Inr u) \<Rightarrow> rehash H s1 rest)"
  by pat_completeness auto

text \<open>
  Termination. A call of \<open>put\<close> inside the loop runs on the table under construction,
  which is the result of earlier calls; so the measure needs a bound on the number of
  stored entries of a result, proved first on the domain of the functions.
\<close>

definition entries :: "('k, 'v) HashTable \<Rightarrow> nat" where
  "entries s = length (concat (table s))"

lemma length_concat_update:
  "i < length xss \<Longrightarrow>
   length (concat (xss[i := ys])) + length (xss ! i) = length (concat xss) + length ys"
  by (induction xss arbitrary: i) (auto split: nat.splits)

lemma py_index_lt: "py_index xs i = Inr b \<Longrightarrow> b < length xs"
  by (auto simp: py_index_def Let_def split: if_splits)

lemma find_key_lt: "find_key key b = Some i \<Longrightarrow> i < length b"
  by (induction key b arbitrary: i rule: find_key.induct) (auto split: if_splits)

lemma put_entry_entries: "entries (fst (put_entry H s key val)) \<le> Suc (entries s)"
proof (cases "hash H s key")
  case (Inl e)
  then show ?thesis by (simp add: put_entry_def)
next
  case (Inr index)
  note idx = this
  show ?thesis
  proof (cases "py_index (table s) index")
    case (Inl e)
    with idx show ?thesis by (simp add: put_entry_def)
  next
    case (Inr b)
    then have b: "b < length (table s)" by (rule py_index_lt)
    show ?thesis
      using idx Inr
        length_concat_update[OF b, of "(table s ! b)[the (find_key key (table s ! b)) := (key, val)]"]
        length_concat_update[OF b, of "table s ! b @ [(key, val)]"]
      by (auto simp: put_entry_def entries_def Let_def split: option.splits)
  qed
qed

lemma entries_bounds:
  "put_resize_rehash_dom (Inl (H, s, key, val)) \<Longrightarrow>
     entries (fst (put H s key val)) \<le> Suc (entries s)"
  "put_resize_rehash_dom (Inr (Inl (H, s, new_size))) \<Longrightarrow>
     entries (fst (resize H s new_size)) \<le> entries s"
  "put_resize_rehash_dom (Inr (Inr (H, s, es))) \<Longrightarrow>
     entries (fst (rehash H s es)) \<le> entries s + length es"
proof (induction H s key val and H s new_size and H s es rule: put_resize_rehash.pinduct)
  case (1 H s key val)
  show ?case
  proof (cases "threshold s \<le> count s")
    case False
    then show ?thesis
      using 1(1) put_entry_entries[of H s key val] by (simp add: put.psimps)
  next
    case True
    obtain s1 r where r: "resize H s (size_ht s * 2) = (s1, r)"
      by (cases "resize H s (size_ht s * 2)")
    from 1(2)[OF True] r have le: "entries s1 \<le> entries s" by simp
    show ?thesis
    proof (cases r)
      case (Inl e)
      then show ?thesis using 1(1) True r le by (simp add: put.psimps)
    next
      case (Inr u)
      then show ?thesis
        using 1(1) True r le put_entry_entries[of H s1 key val] by (simp add: put.psimps)
    qed
  qed
next
  case (2 H s new_size)
  show ?case
  proof (cases "is_power_of_two new_size")
    case False
    then show ?thesis using 2(1) by (simp add: resize.psimps)
  next
    case True
    then show ?thesis using 2(1) 2(2) by (simp add: resize.psimps entries_def)
  qed
next
  case (3 H s)
  then show ?case by (simp add: rehash.psimps)
next
  case (4 H s key val rest)
  obtain s1 r where p: "put H s key val = (s1, r)" by (cases "put H s key val")
  from 4(2) p have le: "entries s1 \<le> Suc (entries s)" by simp
  show ?case
  proof (cases r)
    case (Inl e)
    then show ?thesis using 4(1) p le by (simp add: rehash.psimps)
  next
    case (Inr u)
    from 4(3)[OF p[symmetric] Inr]
    have "entries (fst (rehash H s1 rest)) \<le> entries s1 + length rest" .
    then show ?thesis using 4(1) p le Inr by (simp add: rehash.psimps)
  qed
qed

definition call_measure ::
  "(('k \<Rightarrow> int option) \<times> ('k, 'v) HashTable \<times> 'k \<times> 'v pyval) +
   (('k \<Rightarrow> int option) \<times> ('k, 'v) HashTable \<times> int) +
   (('k \<Rightarrow> int option) \<times> ('k, 'v) HashTable \<times> ('k \<times> 'v pyval) list)
   \<Rightarrow> nat \<times> nat \<times> nat"
where
  "call_measure x =
     (case x of
        Inl (H, s, key, val) \<Rightarrow> (entries s, 2, 0)
      | Inr (Inl (H, s, new_size)) \<Rightarrow> (entries s, 1, 0)
      | Inr (Inr (H, s, es)) \<Rightarrow> (entries s + length es, 0, length es))"

definition call_order ::
  "(((('k \<Rightarrow> int option) \<times> ('k, 'v) HashTable \<times> 'k \<times> 'v pyval) +
   (('k \<Rightarrow> int option) \<times> ('k, 'v) HashTable \<times> int) +
   (('k \<Rightarrow> int option) \<times> ('k, 'v) HashTable \<times> ('k \<times> 'v pyval) list)) \<times>
   ((('k \<Rightarrow> int option) \<times> ('k, 'v) HashTable \<times> 'k \<times> 'v pyval) +
   (('k \<Rightarrow> int option) \<times> ('k, 'v) HashTable \<times> int) +
   (('k \<Rightarrow> int option) \<times> ('k, 'v) HashTable \<times> ('k \<times> 'v pyval) list))) set"
where
  "call_order = inv_image (less_than <*lex*> less_than <*lex*> less_than) call_measure"

lemma wf_call_order: "wf call_order"
  unfolding call_order_def by (intro wf_inv_image wf_lex_prod wf_less_than)

lemma put_resize_rehash_total: "All put_resize_rehash_dom"
proof
  fix x :: "(('k \<Rightarrow> int option) \<times> ('k, 'v) HashTable \<times> 'k \<times> 'v pyval) +
   (('k \<Rightarrow> int option) \<times> ('k, 'v) HashTable \<times> int) +
   (('k \<Rightarrow> int option) \<times> ('k, 'v) HashTable \<times> ('k \<times> 'v pyval) list)"
  show "put_resize_rehash_dom x"
  proof (induction x rule: wf_induct_rule[OF wf_call_order])
    case (1 x)
    show ?case
    proof (cases x)
      case (Inl a)
      obtain H s key val where a: "a = (H, s, key, val)" by (cases a)
      have "put_resize_rehash_dom (Inl (H, s, key, val))"
      proof (rule put_resize_rehash.domintros(1))
        show "put_resize_rehash_dom (Inr (Inl (H, s, size_ht s * 2)))"
          using Inl a by (intro 1) (simp add: call_order_def call_measure_def)
      qed
      with Inl a show ?thesis by simp
    next
      case (Inr y)
      show ?thesis
      proof (cases y)
        case (Inl a)
        obtain H s new_size where a: "a = (H, s, new_size)" by (cases a)
        have "put_resize_rehash_dom (Inr (Inl (H, s, new_size)))"
        proof (rule put_resize_rehash.domintros(2))
          show "put_resize_rehash_dom (Inr (Inr (H,
              s\<lparr>size_ht := new_size, threshold := py_int (of_int new_size * load_factor s),
                 table := replicate (nat new_size) [], count := 0\<rparr>, concat (table s))))"
            using Inr Inl a
            by (intro 1) (simp add: call_order_def call_measure_def entries_def)
        qed
        with Inr Inl a show ?thesis by simp
      next
        case (Inr a)
        note Inr' = this
        obtain H s es where a: "a = (H, s, es)" by (cases a)
        show ?thesis
        proof (cases es)
          case Nil
          with \<open>x = Inr y\<close> Inr' a show ?thesis
            by (simp add: put_resize_rehash.domintros(3))
        next
          case (Cons e rest)
          obtain key val where e: "e = (key, val)" by (cases e)
          have x: "x = Inr (Inr (H, s, (key, val) # rest))"
            using \<open>x = Inr y\<close> Inr' a Cons e by simp
          have d: "put_resize_rehash_dom (Inl (H, s, key, val))"
            by (intro 1) (simp add: x call_order_def call_measure_def)
          have "put_resize_rehash_dom (Inr (Inr (H, s, (key, val) # rest)))"
          proof (rule put_resize_rehash.domintros(4)[OF d])
            fix s1 assume "(s1, Inr ()) = put H s key val"
            then have "entries s1 \<le> Suc (entries s)"
              using entries_bounds(1)[OF d] by (metis fst_conv)
            then show "put_resize_rehash_dom (Inr (Inr (H, s1, rest)))"
              by (intro 1) (auto simp: x call_order_def call_measure_def)
          qed
          with x show ?thesis by simp
        qed
      qed
    qed
  qed
qed

termination put
  by (rule put_resize_rehash_total)

declare put.simps [simp del] resize.simps [simp del]

subsection \<open>get, delete, membership, length, enumeration\<close>

text \<open>
  \<^verbatim>\<open>get\<close> (line 85). The loop \<^verbatim>\<open>for k, v in bucket: if k == key: return v\<close> returns the
  value of the first entry with this key, which is \<open>map_of bucket key\<close>.
\<close>

definition get ::
  "('k \<Rightarrow> int option) \<Rightarrow> ('k, 'v) HashTable \<Rightarrow> 'k \<Rightarrow> 'v pyval \<Rightarrow> error + 'v pyval"
where
  "get H s key dflt =
     (case hash H s key of
        Inl e \<Rightarrow> Inl e
      | Inr index \<Rightarrow>
          (case py_index (table s) index of
             Inl e \<Rightarrow> Inl e
           | Inr b \<Rightarrow>
               (case map_of (table s ! b) key of
                  Some v \<Rightarrow> Inr v
                | None \<Rightarrow> Inr dflt)))"

text \<open>\<^verbatim>\<open>delete\<close> (line 105). The shrink check reads the fields after the removal.\<close>

definition delete ::
  "('k \<Rightarrow> int option) \<Rightarrow> ('k, 'v) HashTable \<Rightarrow> 'k \<Rightarrow> ('k, 'v) HashTable \<times> (error + 'v pyval)"
where
  "delete H s key =
     (case hash H s key of
        Inl e \<Rightarrow> (s, Inl e)
      | Inr index \<Rightarrow>
          (case py_index (table s) index of
             Inl e \<Rightarrow> (s, Inl e)
           | Inr b \<Rightarrow>
               (let bucket = table s ! b in
                case find_key key bucket of
                  None \<Rightarrow> (s, Inr PyNone)
                | Some i \<Rightarrow>
                    (let v = snd (bucket ! i);
                         s1 = s\<lparr>table := (table s)[b := del_at i bucket],
                                 count := count s - 1\<rparr>
                     in if size_ht s1 > 8 \<and> count s1 < threshold s1 div 4 then
                          (case resize H s1 (max 8 (size_ht s1 div 2)) of
                             (s2, Inl e) \<Rightarrow> (s2, Inl e)
                           | (s2, Inr u) \<Rightarrow> (s2, Inr v))
                        else (s1, Inr v)))))"

text \<open>\<^verbatim>\<open>__contains__\<close> (line 131): \<^verbatim>\<open>self.get(key) is not None\<close>.\<close>

definition contains :: "('k \<Rightarrow> int option) \<Rightarrow> ('k, 'v) HashTable \<Rightarrow> 'k \<Rightarrow> error + bool" where
  "contains H s key =
     (case get H s key PyNone of Inl e \<Rightarrow> Inl e | Inr v \<Rightarrow> Inr (v \<noteq> PyNone))"

text \<open>\<^verbatim>\<open>__len__\<close> (line 135), \<^verbatim>\<open>items\<close>, \<^verbatim>\<open>keys\<close> and \<^verbatim>\<open>values\<close> (lines 139 to 153).\<close>

definition len :: "('k, 'v) HashTable \<Rightarrow> int" where
  "len s = count s"

definition items :: "('k, 'v) HashTable \<Rightarrow> ('k \<times> 'v pyval) list" where
  "items s = concat (table s)"

definition keys :: "('k, 'v) HashTable \<Rightarrow> 'k list" where
  "keys s = map fst (items s)"


subsection \<open>Lifetimes\<close>

text \<open>
  The containers a program can hold: built by the constructor from \<open>initial_size\<close> and
  \<open>load_factor\<close>, then changed by calls of \<^verbatim>\<open>put\<close> and \<^verbatim>\<open>delete\<close> only. A call that
  raises still leaves a container behind, which the caller may go on using.
\<close>

inductive reachable ::
  "('k \<Rightarrow> int option) \<Rightarrow> int \<Rightarrow> rat \<Rightarrow> ('k, 'v) HashTable \<Rightarrow> bool"
  for H :: "'k \<Rightarrow> int option" and initial_size :: int and lf :: rat
where
  reach_init: "init initial_size lf = Inr s \<Longrightarrow> reachable H initial_size lf s"
| reach_put: "reachable H initial_size lf s \<Longrightarrow> put H s key val = (s', r)
     \<Longrightarrow> reachable H initial_size lf s'"
| reach_delete: "reachable H initial_size lf s \<Longrightarrow> delete H s key = (s', r)
     \<Longrightarrow> reachable H initial_size lf s'"

text \<open>A sequence of calls, stopping at the first exception.\<close>

datatype ('k, 'v) operation = Put 'k "'v pyval" | Delete 'k

fun run ::
  "('k \<Rightarrow> int option) \<Rightarrow> ('k, 'v) HashTable \<Rightarrow> ('k, 'v) operation list
     \<Rightarrow> ('k, 'v) HashTable \<times> (error + unit)"
where
  "run H s [] = (s, Inr ())"
| "run H s (Put key val # ops) =
     (case put H s key val of
        (s1, Inl e) \<Rightarrow> (s1, Inl e)
      | (s1, Inr u) \<Rightarrow> run H s1 ops)"
| "run H s (Delete key # ops) =
     (case delete H s key of
        (s1, Inl e) \<Rightarrow> (s1, Inl e)
      | (s1, Inr v) \<Rightarrow> run H s1 ops)"



subsection \<open>The representation invariant\<close>

text \<open>
  What the constructor establishes and every call keeps: \<open>size\<close> is a power of two, the
  table has \<open>size\<close> buckets, \<open>count\<close> is the number of entries, \<open>threshold\<close> is what
  \<^verbatim>\<open>int(size * load_factor)\<close> gives, every entry sits in the bucket its key hashes to
  (\<open>placed\<close>), and no chain holds a key twice.
\<close>

definition placed :: "('k \<Rightarrow> int option) \<Rightarrow> int \<Rightarrow> ('k \<times> 'v) list list \<Rightarrow> bool" where
  "placed H n t \<longleftrightarrow>
     (\<forall>b < length t. \<forall>e \<in> set (t ! b). \<exists>h. H (fst e) = Some h \<and> h mod n = int b)"

definition ht_inv :: "('k \<Rightarrow> int option) \<Rightarrow> ('k, 'v) HashTable \<Rightarrow> bool" where
  "ht_inv H s \<longleftrightarrow>
     is_power_of_two (size_ht s) \<and>
     length (table s) = nat (size_ht s) \<and>
     count s = int (length (concat (table s))) \<and>
     threshold s = py_int (of_int (size_ht s) * load_factor s) \<and>
     placed H (size_ht s) (table s) \<and>
     (\<forall>b < length (table s). distinct (map fst (table s ! b)))"

subsection \<open>Example data\<close>

text \<open>
  Keys for the concrete instances below: integers, hashed to themselves (of either sign),
  and lists, which Python cannot hash.
\<close>

datatype pykey = KInt int | KList "int list"

fun hash_ex :: "pykey \<Rightarrow> int option" where
  "hash_ex (KInt i) = Some i"
| "hash_ex (KList xs) = None"

text \<open>\<^verbatim>\<open>HashTable()\<close>, and \<^verbatim>\<open>HashTable(initial_size=4)\<close> as in \<^verbatim>\<open>test_collisions\<close>.\<close>

definition ex_empty :: "(pykey, int) HashTable" where
  "ex_empty = \<lparr> size_ht = 8, load_factor = 3 / 4, threshold = 6, count = 0,
                 table = [[], [], [], [], [], [], [], []] \<rparr>"

definition ex_small :: "(pykey, int) HashTable" where
  "ex_small = \<lparr> size_ht = 4, load_factor = 3 / 4, threshold = 3, count = 0,
                 table = [[], [], [], []] \<rparr>"



definition ex_none :: "(pykey, int) HashTable" where
  "ex_none = \<lparr> size_ht = 8, load_factor = 3 / 4, threshold = 6, count = 1,
                table = [[], [(KInt 1, PyNone)], [], [], [], [], [], []] \<rparr>"

text \<open>
  The scenario of \<^verbatim>\<open>test_resize\<close>: six entries fill the default table to its threshold
  (\<open>ex_full\<close>); growing it gives \<open>ex_grown\<close>, and with a seventh entry \<open>ex_grown7\<close>;
  deleting four entries leaves \<open>ex_sparse\<close>, and a fifth delete shrinks it to
  \<open>ex_shrunk\<close>.
\<close>

definition ex_kvs6 :: "(pykey \<times> int pyval) list" where
  "ex_kvs6 = [(KInt 0, Val 0), (KInt 1, Val 1), (KInt 2, Val 2),
              (KInt 3, Val 3), (KInt 4, Val 4), (KInt 5, Val 5)]"

definition ex_full :: "(pykey, int) HashTable" where
  "ex_full = \<lparr> size_ht = 8, load_factor = 3 / 4, threshold = 6, count = 6,
       table = [[(KInt 0, Val 0)], [(KInt 1, Val 1)], [(KInt 2, Val 2)],
                [(KInt 3, Val 3)], [(KInt 4, Val 4)], [(KInt 5, Val 5)], [], []] \<rparr>"


definition ex_grown7 :: "(pykey, int) HashTable" where
  "ex_grown7 = \<lparr> size_ht = 16, load_factor = 3 / 4, threshold = 12, count = 7,
       table = [[(KInt 0, Val 0)], [(KInt 1, Val 1)], [(KInt 2, Val 2)],
                [(KInt 3, Val 3)], [(KInt 4, Val 4)], [(KInt 5, Val 5)],
                [(KInt 6, Val 6)], [], [], [], [], [], [], [], [], []] \<rparr>"

definition ex_sparse :: "(pykey, int) HashTable" where
  "ex_sparse = \<lparr> size_ht = 16, load_factor = 3 / 4, threshold = 12, count = 3,
       table = [[], [], [], [], [(KInt 4, Val 4)], [(KInt 5, Val 5)],
                [(KInt 6, Val 6)], [], [], [], [], [], [], [], [], []] \<rparr>"

definition ex_shrunk :: "(pykey, int) HashTable" where
  "ex_shrunk = \<lparr> size_ht = 8, load_factor = 3 / 4, threshold = 6, count = 2,
       table = [[], [], [], [], [], [(KInt 5, Val 5)], [(KInt 6, Val 6)], []] \<rparr>"

section \<open>Chains and buckets\<close>

lemma find_key_None: "find_key key b = None \<longleftrightarrow> key \<notin> fst ` set b"
  by (induction key b rule: find_key.induct) auto

lemma find_key_Some:
  "find_key key b = Some i \<Longrightarrow> i < length b \<and> fst (b ! i) = key"
  by (induction key b arbitrary: i rule: find_key.induct) (auto split: if_splits)

lemma find_key_map_of:
  "find_key key b = Some i \<Longrightarrow> map_of b key = Some (snd (b ! i))"
  by (induction key b arbitrary: i rule: find_key.induct) (auto split: if_splits)

lemma map_fst_update_same:
  "i < length b \<Longrightarrow> fst (b ! i) = key \<Longrightarrow> map fst (b[i := (key, val)]) = map fst b"
  by (simp add: map_update list_update_same_conv)

lemma set_update_distinct:
  "distinct (map fst b) \<Longrightarrow> i < length b \<Longrightarrow> fst (b ! i) = key \<Longrightarrow>
   set (b[i := (key, val)]) = {e \<in> set b. fst e \<noteq> key} \<union> {(key, val)}"
proof (induction b arbitrary: i)
  case Nil
  then show ?case by simp
next
  case (Cons a b)
  show ?case
  proof (cases i)
    case 0
    with Cons.prems show ?thesis by (auto simp: image_iff)
  next
    case (Suc j)
    with Cons.prems have "fst a \<noteq> key" by (auto simp: image_iff)
    with Cons Suc show ?thesis by auto
  qed
qed

lemma set_del_at_distinct:
  "distinct (map fst b) \<Longrightarrow> i < length b \<Longrightarrow> fst (b ! i) = key \<Longrightarrow>
   set (del_at i b) = {e \<in> set b. fst e \<noteq> key}"
proof (induction b arbitrary: i)
  case Nil
  then show ?case by simp
next
  case (Cons a b)
  show ?case
  proof (cases i)
    case 0
    with Cons.prems show ?thesis by (auto simp: del_at_def image_iff)
  next
    case (Suc j)
    with Cons.prems have "fst a \<noteq> key" by (auto simp: image_iff)
    with Cons Suc show ?thesis by (auto simp: del_at_def)
  qed
qed

lemma distinct_take_drop: "distinct xs \<Longrightarrow> distinct (take i xs @ drop (Suc i) xs)"
proof (induction xs arbitrary: i)
  case Nil
  then show ?case by simp
next
  case (Cons a xs)
  then show ?case
    by (cases i) (auto dest: in_set_takeD in_set_dropD)
qed

lemma distinct_del_at: "distinct (map fst b) \<Longrightarrow> distinct (map fst (del_at i b))"
  using distinct_take_drop[of "map fst b" i] by (simp add: del_at_def take_map drop_map)

lemma length_del_at: "i < length b \<Longrightarrow> length (del_at i b) = length b - 1"
  by (auto simp: del_at_def)

lemma in_concat_nth: "e \<in> set (concat xss) \<longleftrightarrow> (\<exists>c<length xss. e \<in> set (xss ! c))"
proof
  assume "e \<in> set (concat xss)"
  then obtain xs where "xs \<in> set xss" "e \<in> set xs" by auto
  then show "\<exists>c<length xss. e \<in> set (xss ! c)" by (metis in_set_conv_nth)
next
  assume "\<exists>c<length xss. e \<in> set (xss ! c)"
  then show "e \<in> set (concat xss)" using nth_mem by auto
qed

lemma set_concat_nth: "set (concat xss) = (\<Union>i<length xss. set (xss ! i))"
  by (auto simp: set_conv_nth[of xss])

lemma pow2_and_pred: "(2 ^ m :: int) AND (2 ^ m - 1) = 0"
proof -
  have "(2 ^ m :: int) AND mask m = take_bit m (2 ^ m)" by (simp add: take_bit_eq_mask)
  also have "\<dots> = 0" by (simp add: take_bit_eq_mod)
  finally show ?thesis by (simp add: mask_eq_exp_minus_1)
qed

lemma and_pred_pow2:
  fixes n :: int
  assumes "0 < n" "n AND (n - 1) = 0"
  shows "\<exists>m. n = 2 ^ m"
  using assms
proof (induction "nat n" arbitrary: n rule: less_induct)
  case less
  show ?case
  proof (cases "even n")
    case True
    then obtain q where q: "n = 2 * q" by (elim evenE)
    with less.prems have qpos: "0 < q" by simp
    have "(2 * q - 1) div 2 = q - 1" by linarith
    then have "n AND (n - 1) = 2 * (q AND (q - 1))"
      using q by (subst and_int_rec) simp
    with less.prems have "q AND (q - 1) = 0" by simp
    moreover have "nat q < nat n" using q qpos by simp
    ultimately obtain m where "q = 2 ^ m" using less.hyps[of q] qpos by blast
    then have "n = 2 ^ Suc m" using q by simp
    then show ?thesis by blast
  next
    case False
    then obtain q where q: "n = 2 * q + 1" by (elim oddE)
    have "n AND (n - 1) = 2 * q"
      using q by (subst and_int_rec) simp
    with less.prems have "q = 0" by simp
    then have "n = 2 ^ 0" using q by simp
    then show ?thesis by blast
  qed
qed

lemma is_power_of_two_iff: "is_power_of_two n \<longleftrightarrow> (\<exists>m. n = 2 ^ m)"
proof
  assume a: "is_power_of_two n"
  have "\<not> n < 0"
  proof
    assume "n < 0"
    then have "n AND (n - 1) < 0" by simp
    with a show False by (simp add: is_power_of_two_def)
  qed
  with a have "0 < n" by (simp add: is_power_of_two_def)
  with a show "\<exists>m. n = 2 ^ m" by (auto simp: is_power_of_two_def intro: and_pred_pow2)
next
  assume "\<exists>m. n = 2 ^ m"
  then show "is_power_of_two n" by (auto simp: is_power_of_two_def pow2_and_pred)
qed

lemma is_power_of_two_pos: "is_power_of_two n \<Longrightarrow> 0 < n"
  by (auto simp: is_power_of_two_iff)

lemma is_power_of_two_double: "is_power_of_two n \<Longrightarrow> is_power_of_two (n * 2)"
  unfolding is_power_of_two_iff
proof -
  assume "\<exists>m. n = 2 ^ m"
  then obtain m where "n = 2 ^ m" ..
  then have "n * 2 = 2 ^ Suc m" by simp
  then show "\<exists>m. n * 2 = 2 ^ m" ..
qed

lemma is_power_of_two_half:
  assumes "is_power_of_two n" "8 < n"
  shows "is_power_of_two (max 8 (n div 2))" "max 8 (n div 2) = n div 2" "8 \<le> n div 2"
proof -
  from assms(1) obtain m where m: "n = 2 ^ m" by (auto simp: is_power_of_two_iff)
  have "3 < m"
  proof (rule ccontr)
    assume "\<not> 3 < m"
    then have "m \<le> 3" by simp
    then have "(2::int) ^ m \<le> 2 ^ 3" by (intro power_increasing) simp_all
    with assms(2) m show False by simp
  qed
  then obtain j where j: "m = Suc j" "3 \<le> j" by (cases m) auto
  then have half: "n div 2 = 2 ^ j" using m by simp
  have "(2::int) ^ 3 \<le> 2 ^ j" using j by (intro power_increasing) simp_all
  then show "8 \<le> n div 2" using half by simp
  then show "max 8 (n div 2) = n div 2" by simp
  then show "is_power_of_two (max 8 (n div 2))" using half by (auto simp: is_power_of_two_iff)
qed

lemma bucket_of_key:
  assumes "0 < n" "length t = nat n"
  shows "nat (h mod n) < length t" "int (nat (h mod n)) = h mod n"
  using assms by (simp_all add: nat_less_iff)

lemma placed_key_bucket:
  assumes "placed H n t" "H k = Some h" "e \<in> set (t ! b)" "b < length t" "fst e = k"
  shows "b = nat (h mod n)"
  using assms unfolding placed_def by fastforce

lemma replace_bucket:
  assumes pl: "placed H n t" and hk: "H k = Some h" and n: "0 < n" and len: "length t = nat n"
    and b: "b = nat (h mod n)"
    and nb: "set nb = {e \<in> set (t ! b). fst e \<noteq> k} \<union> A" and A: "A \<subseteq> {k} \<times> UNIV"
  shows "placed H n (t[b := nb])"
    and "set (concat (t[b := nb])) = {e \<in> set (concat t). fst e \<noteq> k} \<union> A"
proof -
  have blt: "b < length t" and bint: "int b = h mod n"
    using bucket_of_key[OF n len, of h] b by simp_all
  show "placed H n (t[b := nb])"
    unfolding placed_def
  proof (intro allI impI ballI)
    fix c e assume c: "c < length (t[b := nb])" and e: "e \<in> set (t[b := nb] ! c)"
    show "\<exists>h. H (fst e) = Some h \<and> h mod n = int c"
    proof (cases "c = b")
      case False
      with c e pl show ?thesis by (auto simp: placed_def)
    next
      case True
      with e blt have "e \<in> set nb" by simp
      with nb have "e \<in> set (t ! b) \<or> e \<in> A" by auto
      then show ?thesis
      proof
        assume "e \<in> set (t ! b)"
        with pl blt True show ?thesis by (auto simp: placed_def)
      next
        assume "e \<in> A"
        with A have "fst e = k" by auto
        with hk bint True show ?thesis by simp
      qed
    qed
  qed
  have other: "fst e \<noteq> k" if "c < length t" "c \<noteq> b" "e \<in> set (t ! c)" for c e
    using placed_key_bucket[OF pl hk that(3) that(1)] that(2) b by blast
  show "set (concat (t[b := nb])) = {e \<in> set (concat t). fst e \<noteq> k} \<union> A"
  proof (intro set_eqI iffI)
    fix e assume "e \<in> set (concat (t[b := nb]))"
    then obtain c where c: "c < length t" "e \<in> set (t[b := nb] ! c)"
      unfolding in_concat_nth by auto
    show "e \<in> {e \<in> set (concat t). fst e \<noteq> k} \<union> A"
    proof (cases "c = b")
      case True
      with c blt nb have "e \<in> set (t ! b) \<and> fst e \<noteq> k \<or> e \<in> A" by auto
      with blt show ?thesis unfolding in_concat_nth by auto
    next
      case False
      with c have "e \<in> set (t ! c)" by simp
      with False c other[of c e] show ?thesis unfolding in_concat_nth by auto
    qed
  next
    fix e assume e: "e \<in> {e \<in> set (concat t). fst e \<noteq> k} \<union> A"
    show "e \<in> set (concat (t[b := nb]))"
    proof (cases "e \<in> A")
      case True
      with nb blt have "b < length (t[b := nb]) \<and> e \<in> set (t[b := nb] ! b)" by simp
      then show ?thesis unfolding in_concat_nth by blast
    next
      case False
      with e obtain c where c: "c < length t" "e \<in> set (t ! c)" "fst e \<noteq> k"
        unfolding in_concat_nth by auto
      have "c < length (t[b := nb]) \<and> e \<in> set (t[b := nb] ! c)"
        using c nb blt by (cases "c = b") auto
      then show ?thesis unfolding in_concat_nth by blast
    qed
  qed
qed

section \<open>Hashing into a well-formed table\<close>

lemma hash_ok:
  assumes "ht_inv H s" "H k = Some h"
  shows "hash H s k = Inr (h mod size_ht s)"
    and "py_index (table s) (h mod size_ht s) = Inr (nat (h mod size_ht s))"
    and "nat (h mod size_ht s) < length (table s)"
    and "0 \<le> h mod size_ht s" and "h mod size_ht s < size_ht s"
proof -
  from assms(1) have n: "0 < size_ht s" and len: "length (table s) = nat (size_ht s)"
    by (auto simp: ht_inv_def dest: is_power_of_two_pos)
  from n assms(2) show "hash H s k = Inr (h mod size_ht s)" by (simp add: hash_def)
  show "0 \<le> h mod size_ht s" "h mod size_ht s < size_ht s" using n by simp_all
  then show "py_index (table s) (h mod size_ht s) = Inr (nat (h mod size_ht s))"
    using len by (simp add: py_index_def Let_def)
  show "nat (h mod size_ht s) < length (table s)" using bucket_of_key(1)[OF n len] .
qed

lemma key_in_items:
  assumes "ht_inv H s" "H k = Some h"
  shows "k \<in> fst ` set (items s) \<longleftrightarrow> k \<in> fst ` set (table s ! nat (h mod size_ht s))"
proof
  assume "k \<in> fst ` set (items s)"
  then obtain e where e: "e \<in> set (concat (table s))" "fst e = k" by (auto simp: items_def)
  then obtain c where c: "c < length (table s)" "e \<in> set (table s ! c)"
    unfolding in_concat_nth by auto
  from assms(1) have "placed H (size_ht s) (table s)" by (simp add: ht_inv_def)
  from placed_key_bucket[OF this assms(2) c(2) c(1) e(2)] c e
  show "k \<in> fst ` set (table s ! nat (h mod size_ht s))" by auto
next
  assume "k \<in> fst ` set (table s ! nat (h mod size_ht s))"
  then obtain e where "e \<in> set (table s ! nat (h mod size_ht s))" "fst e = k" by auto
  with hash_ok(3)[OF assms] have "e \<in> set (concat (table s))" unfolding in_concat_nth by blast
  with \<open>fst e = k\<close> show "k \<in> fst ` set (items s)" by (auto simp: items_def)
qed

lemma put_entry_ok:
  assumes inv: "ht_inv H s" and hk: "H k = Some h"
  shows "\<exists>s'. put_entry H s k v = (s', Inr ()) \<and> ht_inv H s' \<and>
           set (items s') = {e \<in> set (items s). fst e \<noteq> k} \<union> {(k, v)} \<and>
           size_ht s' = size_ht s \<and> load_factor s' = load_factor s \<and>
           threshold s' = threshold s \<and>
           count s' = (if k \<in> fst ` set (items s) then count s else count s + 1)"
proof -
  define n where "n = size_ht s"
  define b where "b = nat (h mod n)"
  define bucket where "bucket = table s ! b"
  note ok = hash_ok[OF inv hk, folded n_def, folded b_def]
  from inv have n: "0 < n" and len: "length (table s) = nat n"
    and pl: "placed H n (table s)"
    and dist: "\<And>c. c < length (table s) \<Longrightarrow> distinct (map fst (table s ! c))"
    and cnt: "count s = int (length (concat (table s)))"
    by (auto simp: ht_inv_def n_def dest: is_power_of_two_pos)
  have blt: "b < length (table s)" using ok(3) .
  have db: "distinct (map fst bucket)" using dist[OF blt] by (simp add: bucket_def)
  have mem: "k \<in> fst ` set (items s) \<longleftrightarrow> k \<in> fst ` set bucket"
    using key_in_items[OF inv hk] by (simp add: bucket_def b_def n_def)
  show ?thesis
  proof (cases "find_key k bucket")
    case None
    define nb where "nb = bucket @ [(k, v)]"
    define s' where "s' = s\<lparr>table := (table s)[b := nb], count := count s + 1\<rparr>"
    have eq: "put_entry H s k v = (s', Inr ())"
      using ok(1,2) None by (simp add: put_entry_def s'_def nb_def bucket_def Let_def)
    from None have notin: "k \<notin> fst ` set bucket" by (simp add: find_key_None)
    then have setnb: "set nb = {e \<in> set (table s ! b). fst e \<noteq> k} \<union> {(k, v)}"
      by (auto simp: nb_def bucket_def)
    note rb = replace_bucket[OF pl hk n len b_def setnb]
    have dnb: "distinct (map fst nb)" using db notin by (simp add: nb_def)
    have lenc: "int (length (concat ((table s)[b := nb]))) = count s + 1"
      using length_concat_update[OF blt, of nb] cnt by (simp add: nb_def bucket_def)
    have "ht_inv H s'"
      using inv rb(1) dnb dist blt lenc
      by (auto simp: ht_inv_def s'_def n_def nth_list_update)
    moreover have "set (items s') = {e \<in> set (items s). fst e \<noteq> k} \<union> {(k, v)}"
      using rb(2) by (simp add: items_def s'_def)
    moreover have "count s' = (if k \<in> fst ` set (items s) then count s else count s + 1)"
      using mem notin by (simp add: s'_def)
    ultimately show ?thesis using eq by (simp add: s'_def)
  next
    case (Some i)
    define nb where "nb = bucket[i := (k, v)]"
    define s' where "s' = s\<lparr>table := (table s)[b := nb]\<rparr>"
    have eq: "put_entry H s k v = (s', Inr ())"
      using ok(1,2) Some by (simp add: put_entry_def s'_def nb_def bucket_def Let_def)
    from find_key_Some[OF Some] have i: "i < length bucket" "fst (bucket ! i) = k" by simp_all
    then have isin: "k \<in> fst ` set bucket" by (metis image_eqI nth_mem)
    have setnb: "set nb = {e \<in> set (table s ! b). fst e \<noteq> k} \<union> {(k, v)}"
      using set_update_distinct[OF db i] by (simp add: nb_def bucket_def)
    note rb = replace_bucket[OF pl hk n len b_def setnb]
    have dnb: "distinct (map fst nb)" using db map_fst_update_same[OF i] by (simp add: nb_def)
    have lenc: "int (length (concat ((table s)[b := nb]))) = count s"
      using length_concat_update[OF blt, of nb] cnt by (simp add: nb_def bucket_def)
    have "ht_inv H s'"
      using inv rb(1) dnb dist blt lenc
      by (auto simp: ht_inv_def s'_def n_def nth_list_update)
    moreover have "set (items s') = {e \<in> set (items s). fst e \<noteq> k} \<union> {(k, v)}"
      using rb(2) by (simp add: items_def s'_def)
    moreover have "count s' = (if k \<in> fst ` set (items s) then count s else count s + 1)"
      using mem isin by (simp add: s'_def)
    ultimately show ?thesis using eq by (simp add: s'_def)
  qed
qed

lemma distinct_concat_nth:
  assumes "\<forall>i<length xss. distinct (xss ! i)"
    and "\<forall>i<length xss. \<forall>j<length xss. i \<noteq> j \<longrightarrow> set (xss ! i) \<inter> set (xss ! j) = {}"
  shows "distinct (concat xss)"
  using assms
proof (induction xss)
  case Nil
  then show ?case by simp
next
  case (Cons x xss)
  have d0: "distinct x" using Cons.prems(1) by (metis length_greater_0_conv list.discI nth_Cons_0)
  have "\<forall>i<length xss. distinct (xss ! i)"
    using Cons.prems(1) by (metis Suc_less_eq length_Cons nth_Cons_Suc)
  moreover have "\<forall>i<length xss. \<forall>j<length xss. i \<noteq> j \<longrightarrow> set (xss ! i) \<inter> set (xss ! j) = {}"
  proof (intro allI impI)
    fix i j assume "i < length xss" "j < length xss" "i \<noteq> j"
    then show "set (xss ! i) \<inter> set (xss ! j) = {}"
      using Cons.prems(2)[rule_format, of "Suc i" "Suc j"] by simp
  qed
  ultimately have dr: "distinct (concat xss)" by (rule Cons.IH)
  have "set x \<inter> set (concat xss) = {}"
  proof (rule ccontr)
    assume "set x \<inter> set (concat xss) \<noteq> {}"
    then obtain y where y: "y \<in> set x" "y \<in> set (concat xss)" by auto
    then obtain c where c: "c < length xss" "y \<in> set (xss ! c)" unfolding in_concat_nth by auto
    with Cons.prems(2)[rule_format, of 0 "Suc c"] y(1) show False by auto
  qed
  with d0 dr show ?case by simp
qed

lemma inv_distinct_items:
  assumes "ht_inv H s"
  shows "distinct (map fst (items s))"
proof -
  let ?t = "map (map fst) (table s)"
  from assms have pl: "placed H (size_ht s) (table s)"
    and dist: "\<And>c. c < length (table s) \<Longrightarrow> distinct (map fst (table s ! c))"
    by (auto simp: ht_inv_def)
  have "\<forall>i<length ?t. distinct (?t ! i)" using dist by simp
  moreover have "\<forall>i<length ?t. \<forall>j<length ?t. i \<noteq> j \<longrightarrow> set (?t ! i) \<inter> set (?t ! j) = {}"
  proof (intro allI impI)
    fix i j assume ij: "i < length ?t" "j < length ?t" "i \<noteq> j"
    show "set (?t ! i) \<inter> set (?t ! j) = {}"
    proof (rule ccontr)
      assume "set (?t ! i) \<inter> set (?t ! j) \<noteq> {}"
      then obtain k where "k \<in> set (?t ! i)" "k \<in> set (?t ! j)" by auto
      with ij obtain e e' where e: "e \<in> set (table s ! i)" "fst e = k"
        and e': "e' \<in> set (table s ! j)" "fst e' = k" by auto
      from pl e(1) ij(1) obtain h where h: "H (fst e) = Some h" "h mod size_ht s = int i"
        by (auto simp: placed_def)
      from pl e'(1) ij(2) obtain h' where h': "H (fst e') = Some h'" "h' mod size_ht s = int j"
        by (auto simp: placed_def)
      from h h' e e' ij(3) show False by simp
    qed
  qed
  ultimately have "distinct (concat ?t)" by (rule distinct_concat_nth)
  then show ?thesis by (simp add: items_def map_concat)
qed

lemma inv_hashable:
  assumes "ht_inv H s" "e \<in> set (items s)"
  shows "H (fst e) \<noteq> None"
proof -
  from assms(2) obtain c where "c < length (table s)" "e \<in> set (table s ! c)"
    unfolding items_def in_concat_nth by auto
  moreover from assms(1) have "placed H (size_ht s) (table s)" by (simp add: ht_inv_def)
  ultimately show ?thesis unfolding placed_def by fastforce
qed

lemma fresh_inv:
  assumes "is_power_of_two n"
  shows "ht_inv H (s\<lparr>size_ht := n, threshold := py_int (of_int n * load_factor s),
                      table := replicate (nat n) [], count := 0\<rparr>)"
  using assms by (simp add: ht_inv_def placed_def)

lemma put_resize_rehash_ok:
  "ht_inv H s \<Longrightarrow> H k \<noteq> None \<Longrightarrow>
     \<exists>s'. put H s k v = (s', Inr ()) \<and> ht_inv H s' \<and>
          set (items s') = {e \<in> set (items s). fst e \<noteq> k} \<union> {(k, v)} \<and>
          load_factor s' = load_factor s \<and> size_ht s \<le> size_ht s'"
  "ht_inv H s \<Longrightarrow> is_power_of_two n \<Longrightarrow>
     \<exists>s'. resize H s n = (s', Inr ()) \<and> ht_inv H s' \<and>
          set (items s') = set (items s) \<and>
          load_factor s' = load_factor s \<and> n \<le> size_ht s'"
  "ht_inv H s \<Longrightarrow> \<forall>e\<in>set es. H (fst e) \<noteq> None \<Longrightarrow> distinct (map fst es) \<Longrightarrow>
     fst ` set es \<inter> fst ` set (items s) = {} \<Longrightarrow>
     \<exists>s'. rehash H s es = (s', Inr ()) \<and> ht_inv H s' \<and>
          set (items s') = set (items s) \<union> set es \<and>
          load_factor s' = load_factor s \<and> size_ht s \<le> size_ht s'"
proof (induction H s k v and H s n and H s es rule: put_resize_rehash.induct)
  case (1 H s key val)
  from 1(3) obtain h where hk: "H key = Some h" by auto
  show ?case
  proof (cases "threshold s \<le> count s")
    case False
    with put_entry_ok[OF 1(2) hk, of val] show ?thesis by (auto simp: put.simps)
  next
    case True
    have "is_power_of_two (size_ht s * 2)"
      using 1(2) by (auto simp: ht_inv_def intro: is_power_of_two_double)
    from 1(1)[OF True 1(2) this] obtain s1 where
      s1: "resize H s (size_ht s * 2) = (s1, Inr ())" "ht_inv H s1"
        "set (items s1) = set (items s)" "load_factor s1 = load_factor s"
        "size_ht s * 2 \<le> size_ht s1" by blast
    have "0 < size_ht s" using 1(2) by (auto simp: ht_inv_def dest: is_power_of_two_pos)
    with s1(5) have "size_ht s \<le> size_ht s1" by simp
    with put_entry_ok[OF s1(2) hk, of val] s1 True show ?thesis by (auto simp: put.simps)
  qed
next
  case (2 H s new_size)
  let ?s0 = "s\<lparr>size_ht := new_size, threshold := py_int (of_int new_size * load_factor s),
                table := replicate (nat new_size) [], count := 0\<rparr>"
  have inv0: "ht_inv H ?s0" using 2(3) by (rule fresh_inv)
  have it0: "items ?s0 = []" by (simp add: items_def)
  have "\<forall>e\<in>set (concat (table s)). H (fst e) \<noteq> None"
    using inv_hashable[OF 2(2)] by (simp add: items_def)
  moreover have "distinct (map fst (concat (table s)))"
    using inv_distinct_items[OF 2(2)] by (simp add: items_def)
  moreover have "fst ` set (concat (table s)) \<inter> fst ` set (items ?s0) = {}"
    using it0 by simp
  ultimately obtain s' where
    "rehash H ?s0 (concat (table s)) = (s', Inr ())" "ht_inv H s'"
    "set (items s') = set (items ?s0) \<union> set (concat (table s))"
    "load_factor s' = load_factor ?s0" "size_ht ?s0 \<le> size_ht s'"
    using 2(1)[OF _ inv0] 2(3) by blast
  then show ?case using 2(3) it0 by (simp add: resize.simps items_def)
next
  case (3 H s)
  then show ?case by simp
next
  case (4 H s key val rest)
  from 4(4) have hk: "H key \<noteq> None" by simp
  from 4(1)[OF 4(3) hk] obtain s1 where
    s1: "put H s key val = (s1, Inr ())" "ht_inv H s1"
      "set (items s1) = {e \<in> set (items s). fst e \<noteq> key} \<union> {(key, val)}"
      "load_factor s1 = load_factor s" "size_ht s \<le> size_ht s1" by blast
  from 4(6) have notin: "key \<notin> fst ` set (items s)" by auto
  then have it1: "set (items s1) = set (items s) \<union> {(key, val)}"
    using s1(3) by force
  have "\<forall>e\<in>set rest. H (fst e) \<noteq> None" using 4(4) by simp
  moreover have "distinct (map fst rest)" using 4(5) by simp
  moreover have "fst ` set rest \<inter> fst ` set (items s1) = {}"
    using 4(5) 4(6) it1 by auto
  ultimately obtain s' where
    "rehash H s1 rest = (s', Inr ())" "ht_inv H s'"
    "set (items s') = set (items s1) \<union> set rest"
    "load_factor s' = load_factor s1" "size_ht s1 \<le> size_ht s'"
    using 4(2)[OF s1(1)[symmetric] refl s1(2)] by blast
  then show ?case using s1 it1 by auto
qed

section \<open>What each operation does to a well-formed table\<close>

lemma put_below_threshold: "count s < threshold s \<Longrightarrow> put H s k v = put_entry H s k v"
  by (simp add: put.simps)

lemma inv_count_card:
  assumes "ht_inv H s"
  shows "count s = int (card (set (items s)))"
proof -
  from inv_distinct_items[OF assms] have "distinct (items s)" by (rule distinct_map[THEN iffD1, THEN conjunct1])
  then have "card (set (items s)) = length (items s)" by (rule distinct_card)
  with assms show ?thesis by (simp add: ht_inv_def items_def)
qed

lemma rehash_no_grow:
  "ht_inv H s \<Longrightarrow> \<forall>e\<in>set es. H (fst e) \<noteq> None \<Longrightarrow>
   count s + int (length es) \<le> threshold s \<Longrightarrow>
   \<exists>s'. rehash H s es = (s', Inr ()) \<and> ht_inv H s' \<and> size_ht s' = size_ht s \<and>
        threshold s' = threshold s"
proof (induction es arbitrary: s)
  case Nil
  then show ?case by simp
next
  case (Cons a es)
  obtain k v where a: "a = (k, v)" by (cases a)
  with Cons.prems(2) obtain h where hk: "H k = Some h" by auto
  from Cons.prems(3) have lt: "count s < threshold s" by simp
  from put_entry_ok[OF Cons.prems(1) hk, of v] obtain s1 where
    s1: "put_entry H s k v = (s1, Inr ())" "ht_inv H s1" "size_ht s1 = size_ht s"
      "threshold s1 = threshold s" "count s1 \<le> count s + 1"
    by (auto split: if_splits)
  have "count s1 + int (length es) \<le> threshold s1" using s1(4,5) Cons.prems(3) by simp
  from Cons.IH[OF s1(2) _ this] Cons.prems(2) obtain s' where
    "rehash H s1 es = (s', Inr ())" "ht_inv H s'" "size_ht s' = size_ht s1"
    "threshold s' = threshold s1" by auto
  then show ?case using a s1 put_below_threshold[OF lt, of H k v] by simp
qed

lemma resize_exact:
  assumes inv: "ht_inv H s" and n: "is_power_of_two n"
    and le: "count s \<le> py_int (of_int n * load_factor s)"
  shows "\<exists>s'. resize H s n = (s', Inr ()) \<and> ht_inv H s' \<and> size_ht s' = n \<and>
           set (items s') = set (items s) \<and> load_factor s' = load_factor s"
proof -
  let ?s0 = "s\<lparr>size_ht := n, threshold := py_int (of_int n * load_factor s),
                table := replicate (nat n) [], count := 0\<rparr>"
  have inv0: "ht_inv H ?s0" using n by (rule fresh_inv)
  have "\<forall>e\<in>set (concat (table s)). H (fst e) \<noteq> None"
    using inv_hashable[OF inv] by (simp add: items_def)
  moreover have "count ?s0 + int (length (concat (table s))) \<le> threshold ?s0"
    using le inv by (simp add: ht_inv_def)
  ultimately obtain s' where
    s': "rehash H ?s0 (concat (table s)) = (s', Inr ())" "size_ht s' = size_ht ?s0"
    using rehash_no_grow[OF inv0] by blast
  from put_resize_rehash_ok(2)[OF inv n] s' n show ?thesis
    by (auto simp: resize.simps)
qed

lemma shrink_arith:
  assumes "0 \<le> c" "c < py_int (of_int (2 * m) * lf) div 4"
  shows "c \<le> py_int (of_int m * lf)"
proof -
  let ?x = "of_int m * lf :: rat"
  from assms have t: "4 * (c + 1) \<le> py_int (2 * ?x)" by (simp add: algebra_simps)
  have pos: "0 \<le> 2 * ?x"
  proof (rule ccontr)
    assume "\<not> 0 \<le> 2 * ?x"
    then have "py_int (2 * ?x) \<le> 0" by (simp add: py_int_def ceiling_le_iff)
    with t assms(1) show False by simp
  qed
  with t have "4 * (c + 1) \<le> \<lfloor>2 * ?x\<rfloor>" by (simp add: py_int_def)
  then have "of_int (4 * (c + 1)) \<le> 2 * ?x" by (simp only: le_floor_iff)
  then have "of_int (2 * (c + 1)) \<le> ?x" by simp
  then have "2 * (c + 1) \<le> \<lfloor>?x\<rfloor>" by (simp only: le_floor_iff)
  moreover from pos have "0 \<le> ?x" by linarith
  then have "py_int ?x = \<lfloor>?x\<rfloor>" unfolding py_int_def by (rule if_P)
  ultimately show ?thesis using assms(1) by simp
qed


lemma delete_absent:
  assumes inv: "ht_inv H s" and hk: "H k = Some h" and notin: "k \<notin> fst ` set (items s)"
  shows "delete H s k = (s, Inr PyNone)"
proof -
  note ok = hash_ok[OF inv hk]
  from notin have "k \<notin> fst ` set (table s ! nat (h mod size_ht s))"
    using key_in_items[OF inv hk] by simp
  then have "find_key k (table s ! nat (h mod size_ht s)) = None" by (simp add: find_key_None)
  then show ?thesis using ok(1,2) by (simp add: delete_def)
qed

lemma delete_present:
  assumes inv: "ht_inv H s" and hk: "H k = Some h" and isin: "(k, v) \<in> set (items s)"
  shows "\<exists>s'. delete H s k = (s', Inr v) \<and> ht_inv H s' \<and>
           set (items s') = {e \<in> set (items s). fst e \<noteq> k} \<and>
           load_factor s' = load_factor s \<and>
           size_ht s' = (if size_ht s > 8 \<and> count s - 1 < threshold s div 4
                         then size_ht s div 2 else size_ht s) \<and>
           (size_ht s' < size_ht s \<longrightarrow> 8 \<le> size_ht s')"
proof -
  define n where "n = size_ht s"
  define b where "b = nat (h mod n)"
  define bucket where "bucket = table s ! b"
  note ok = hash_ok[OF inv hk, folded n_def, folded b_def]
  from inv have n: "0 < n" and len: "length (table s) = nat n"
    and pl: "placed H n (table s)"
    and dist: "\<And>c. c < length (table s) \<Longrightarrow> distinct (map fst (table s ! c))"
    and cnt: "count s = int (length (concat (table s)))"
    and p2: "is_power_of_two n"
    and thr: "threshold s = py_int (of_int n * load_factor s)"
    by (auto simp: ht_inv_def n_def dest: is_power_of_two_pos)
  have blt: "b < length (table s)" using ok(3) .
  have db: "distinct (map fst bucket)" using dist[OF blt] by (simp add: bucket_def)
  from isin obtain c where c: "c < length (table s)" "(k, v) \<in> set (table s ! c)"
    unfolding items_def in_concat_nth by auto
  from placed_key_bucket[OF pl hk c(2) c(1)] have "c = b" by (simp add: b_def)
  with c have inb: "(k, v) \<in> set bucket" by (simp add: bucket_def)
  then have "k \<in> fst ` set bucket" by (rule image_eqI[rotated]) simp
  then have "find_key k bucket \<noteq> None" by (simp add: find_key_None)
  then obtain i where fi: "find_key k bucket = Some i" by auto
  from find_key_Some[OF fi] have i: "i < length bucket" "fst (bucket ! i) = k" by simp_all
  from find_key_map_of[OF fi] inb db have vi: "snd (bucket ! i) = v" by simp
  define nb where "nb = del_at i bucket"
  define s1 where "s1 = s\<lparr>table := (table s)[b := nb], count := count s - 1\<rparr>"
  have setnb: "set nb = {e \<in> set (table s ! b). fst e \<noteq> k} \<union> {}"
    using set_del_at_distinct[OF db i] by (simp add: nb_def bucket_def)
  note rb = replace_bucket[OF pl hk n len b_def setnb]
  have dnb: "distinct (map fst nb)" using db by (simp add: nb_def distinct_del_at)
  have lpos: "0 < length bucket" using i by auto
  have "length (concat ((table s)[b := nb])) + length bucket =
        length (concat (table s)) + (length bucket - 1)"
    using length_concat_update[OF blt, of nb] length_del_at[OF i(1)]
    by (simp add: nb_def bucket_def)
  with lpos have "length (concat ((table s)[b := nb])) + 1 = length (concat (table s))"
    by arith
  with cnt have lenc: "int (length (concat ((table s)[b := nb]))) = count s - 1"
    by linarith
  have inv1: "ht_inv H s1"
    using inv rb(1) dnb dist blt lenc
    by (auto simp: ht_inv_def s1_def n_def nth_list_update)
  have it1: "set (items s1) = {e \<in> set (items s). fst e \<noteq> k}"
    using rb(2) by (simp add: items_def s1_def)
  have c1: "0 \<le> count s1" using inv1 by (simp add: ht_inv_def)
  have del: "delete H s k =
      (if size_ht s1 > 8 \<and> count s1 < threshold s1 div 4 then
         (case resize H s1 (max 8 (size_ht s1 div 2)) of
            (s2, Inl e) \<Rightarrow> (s2, Inl e)
          | (s2, Inr u) \<Rightarrow> (s2, Inr v))
       else (s1, Inr v))"
    using ok(1,2) fi vi
    by (simp add: delete_def bucket_def[symmetric] nb_def[symmetric] s1_def[symmetric] Let_def
          del: resize.simps)
  have f1: "size_ht s1 = size_ht s" "count s1 = count s - 1" "threshold s1 = threshold s"
    "load_factor s1 = load_factor s" by (simp_all add: s1_def)
  show ?thesis
  proof (cases "size_ht s1 > 8 \<and> count s1 < threshold s1 div 4")
    case False
    with del have "delete H s k = (s1, Inr v)" by simp
    moreover from False f1 have "\<not> (size_ht s > 8 \<and> count s - 1 < threshold s div 4)" by simp
    ultimately show ?thesis using inv1 it1 f1 by auto
  next
    case True
    then have big: "8 < n" by (simp add: f1 n_def)
    note half = is_power_of_two_half[OF p2 big]
    have "even n"
    proof -
      from p2 obtain m where m: "n = 2 ^ m" by (auto simp: is_power_of_two_iff)
      with big have "m \<noteq> 0" by (cases m) auto
      with m show ?thesis by simp
    qed
    then have n2: "2 * (n div 2) = n" by simp
    have "count s1 < py_int (of_int (2 * (n div 2)) * load_factor s) div 4"
      using True thr f1 by (simp only: n2)
    from shrink_arith[OF c1 this]
    have le: "count s1 \<le> py_int (of_int (max 8 (size_ht s1 div 2)) * load_factor s1)"
      using half(2) by (simp add: f1 n_def)
    have p2': "is_power_of_two (max 8 (size_ht s1 div 2))"
      using half(1) by (simp add: f1 n_def)
    from resize_exact[OF inv1 p2' le] obtain s2 where
      s2: "resize H s1 (max 8 (size_ht s1 div 2)) = (s2, Inr ())" "ht_inv H s2"
        "size_ht s2 = max 8 (size_ht s1 div 2)" "set (items s2) = set (items s1)"
        "load_factor s2 = load_factor s1" by blast
    have sz: "size_ht s2 = size_ht s div 2" "8 \<le> size_ht s2"
      using s2(3) half(2,3) by (simp_all add: f1 n_def)
    from del True s2(1) have "delete H s k = (s2, Inr v)" by simp
    moreover from True f1 have "size_ht s > 8 \<and> count s - 1 < threshold s div 4" by simp
    ultimately show ?thesis using s2 sz it1 f1 by auto
  qed
qed

lemma put_unhashable:
  assumes inv: "ht_inv H s" and hk: "H k = None"
  shows "\<exists>s'. put H s k v = (s', Inl TypeError) \<and> ht_inv H s' \<and>
           set (items s') = set (items s) \<and> load_factor s' = load_factor s \<and>
           (if threshold s \<le> count s
            then resize H s (size_ht s * 2) = (s', Inr ()) \<and> size_ht s * 2 \<le> size_ht s'
            else s' = s)"
proof (cases "threshold s \<le> count s")
  case False
  with inv hk show ?thesis by (simp add: put.simps put_entry_def hash_def)
next
  case True
  have "is_power_of_two (size_ht s * 2)"
    using inv by (auto simp: ht_inv_def intro: is_power_of_two_double)
  from put_resize_rehash_ok(2)[OF inv this] obtain s1 where
    "resize H s (size_ht s * 2) = (s1, Inr ())" "ht_inv H s1"
    "set (items s1) = set (items s)" "load_factor s1 = load_factor s"
    "size_ht s * 2 \<le> size_ht s1" by blast
  with True hk show ?thesis by (simp add: put.simps put_entry_def hash_def)
qed

lemma delete_unhashable: "H k = None \<Longrightarrow> delete H s k = (s, Inl TypeError)"
  by (simp add: delete_def hash_def)


lemma put_any:
  assumes inv: "ht_inv H s" and p: "put H s k v = (s', r)"
  shows "ht_inv H s' \<and> load_factor s' = load_factor s \<and> size_ht s \<le> size_ht s'"
proof (cases "H k")
  case None
  have "0 < size_ht s" using inv by (auto simp: ht_inv_def dest: is_power_of_two_pos)
  with put_unhashable[OF inv None, of v] p show ?thesis by (auto split: if_splits)
next
  case (Some h)
  then have "H k \<noteq> None" by simp
  from put_resize_rehash_ok(1)[OF inv this, of v] p show ?thesis by auto
qed

lemma delete_any:
  assumes inv: "ht_inv H s" and d: "delete H s k = (s', r)"
  shows "ht_inv H s' \<and> load_factor s' = load_factor s \<and>
         (size_ht s' = size_ht s \<or> 8 \<le> size_ht s')"
proof (cases "H k")
  case None
  with delete_unhashable[of H k s] d inv show ?thesis by simp
next
  case (Some h)
  show ?thesis
  proof (cases "k \<in> fst ` set (items s)")
    case False
    from delete_absent[OF inv Some False] d inv show ?thesis by simp
  next
    case True
    then obtain v where "(k, v) \<in> set (items s)" by auto
    from delete_present[OF inv Some this] d show ?thesis by (auto split: if_splits)
  qed
qed

lemma init_inv:
  assumes "init n lf = Inr s"
  shows "ht_inv H s" "load_factor s = lf" "size_ht s = n" "items s = []" "count s = 0"
    "threshold s = py_int (of_int n * lf)" "is_power_of_two n"
  using assms by (auto simp: init_def ht_inv_def placed_def items_def split: if_splits)

lemma reachable_inv:
  assumes "reachable H n lf s"
  shows "ht_inv H s \<and> load_factor s = lf \<and> min 8 n \<le> size_ht s"
  using assms
proof (induction rule: reachable.induct)
  case (reach_init s)
  then show ?case using init_inv(1,2,3)[OF reach_init] by simp
next
  case (reach_put s key val s' r)
  with put_any[of H s key val s' r] show ?case by auto
next
  case (reach_delete s key s' r)
  with delete_any[of H s key s' r] show ?case by auto
qed

lemma rehash_run: "rehash H s es = run H s (map (\<lambda>(k, v). Put k v) es)"
proof (induction es arbitrary: s)
  case Nil
  then show ?case by simp
next
  case (Cons a es)
  obtain k v where a: "a = (k, v)" by (cases a)
  obtain s1 r where p: "put H s k v = (s1, r)" by (cases "put H s k v")
  show ?case using a p Cons.IH[of s1] by (cases r) simp_all
qed





lemma py_int_numeral: "py_int (numeral w) = numeral w"
  by (simp add: py_int_def)

lemma is_power_of_two_16: "is_power_of_two 16"
proof -
  have "(16::int) = 2 ^ 4" by simp
  then show ?thesis unfolding is_power_of_two_iff by blast
qed

section \<open>The example containers, evaluated\<close>

lemma init_ex_empty: "init 8 (3 / 4) = Inr ex_empty"
  by (simp add: init_def ex_empty_def is_power_of_two_def py_int_def eval_nat_numeral)

lemma init_ex_small: "init 4 (3 / 4) = Inr ex_small"
  by (simp add: init_def ex_small_def is_power_of_two_def py_int_def eval_nat_numeral)

lemma reachable_ex_empty: "reachable hash_ex 8 (3 / 4) ex_empty"
  by (rule reach_init) (rule init_ex_empty)

lemma reachable_run:
  "reachable H n lf s \<Longrightarrow> run H s ops = (s', r) \<Longrightarrow> reachable H n lf s'"
proof (induction ops arbitrary: s)
  case Nil
  then show ?case by simp
next
  case (Cons a ops)
  show ?case
  proof (cases a)
    case (Put k v)
    obtain s1 r1 where p: "put H s k v = (s1, r1)" by (cases "put H s k v")
    from Cons.prems(1) p have r1: "reachable H n lf s1" by (rule reach_put)
    show ?thesis
    proof (cases r1)
      case (Inl e)
      with Cons.prems(2) Put p r1 show ?thesis by simp
    next
      case (Inr u)
      with Cons.prems(2) Put p have "run H s1 ops = (s', r)" by simp
      with r1 show ?thesis by (rule Cons.IH)
    qed
  next
    case (Delete k)
    obtain s1 r1 where p: "delete H s k = (s1, r1)" by (cases "delete H s k")
    from Cons.prems(1) p have r1: "reachable H n lf s1" by (rule reach_delete)
    show ?thesis
    proof (cases r1)
      case (Inl e)
      with Cons.prems(2) Delete p r1 show ?thesis by simp
    next
      case (Inr u)
      with Cons.prems(2) Delete p have "run H s1 ops = (s', r)" by simp
      with r1 show ?thesis by (rule Cons.IH)
    qed
  qed
qed


lemma put_ex_none: "put hash_ex ex_empty (KInt 1) PyNone = (ex_none, Inr ())"
  by (simp add: put.simps put_entry_def hash_def py_index_def ex_empty_def ex_none_def)

lemma run_ex_full: "run hash_ex ex_empty (map (\<lambda>(k, v). Put k v) ex_kvs6) = (ex_full, Inr ())"
  by code_simp

lemma reachable_ex_full: "reachable hash_ex 8 (3 / 4) ex_full"
  using reachable_ex_empty run_ex_full by (rule reachable_run)



lemma put_ex_full: "put hash_ex ex_full (KInt 6) (Val 6) = (ex_grown7, Inr ())"
  by code_simp

lemma run_ex_sparse:
  "run hash_ex ex_grown7 [Delete (KInt 0), Delete (KInt 1), Delete (KInt 2), Delete (KInt 3)]
     = (ex_sparse, Inr ())"
  by code_simp

lemma reachable_ex_sparse: "reachable hash_ex 8 (3 / 4) ex_sparse"
proof -
  from reachable_ex_full put_ex_full have "reachable hash_ex 8 (3 / 4) ex_grown7"
    by (rule reach_put)
  then show ?thesis using run_ex_sparse by (rule reachable_run)
qed

lemma delete_ex_sparse: "delete hash_ex ex_sparse (KInt 4) = (ex_shrunk, Inr (Val 4))"
  by code_simp

section \<open>The claims\<close>





text \<open>
  C3 (size invariant), as stated: in every reachable container \<open>size\<close> is a power of two that
  is at least 8. The constructor accepts every power of two, so \<^verbatim>\<open>HashTable(initial_size=4)\<close>
  of \<^verbatim>\<open>test_collisions\<close> is a container of size 4.
\<close>

theorem size_at_least_8_counterexample:
  "init 4 (3 / 4) = Inr ex_small \<and> reachable hash_ex 4 (3 / 4) ex_small \<and>
   \<not> 8 \<le> size_ht ex_small"
proof -
  have "reachable hash_ex 4 (3 / 4) ex_small" by (rule reach_init) (rule init_ex_small)
  then show ?thesis using init_ex_small by (simp add: ex_small_def)
qed

text \<open>
  C3 amended. In every container reachable from \<^verbatim>\<open>HashTable(initial_size, load_factor)\<close>,
  \<open>size\<close> is a power of two, it is at least the smaller of 8 and \<open>initial_size\<close> (so at least
  8 whenever the initial size was), and \<open>count\<close> is the number of entries summed over the
  chains.
\<close>

theorem size_count_invariant:
  assumes "reachable H n lf s"
  shows "(\<exists>m. size_ht s = 2 ^ m) \<and> min 8 n \<le> size_ht s \<and>
         count s = int (sum_list (map length (table s)))"
proof -
  from reachable_inv[OF assms] have inv: "ht_inv H s" and sz: "min 8 n \<le> size_ht s"
    by simp_all
  from inv have "\<exists>m. size_ht s = 2 ^ m" by (simp add: ht_inv_def is_power_of_two_iff)
  moreover from inv have "count s = int (sum_list (map length (table s)))"
    by (simp add: ht_inv_def length_concat)
  ultimately show ?thesis using sz by simp
qed

theorem size_count_invariant_witness:
  "reachable hash_ex 8 (3 / 4) ex_none \<and> size_ht ex_none = 2 ^ 3 \<and>
   min 8 8 \<le> size_ht ex_none \<and> count ex_none = int (sum_list (map length (table ex_none)))"
proof -
  have r: "reachable hash_ex 8 (3 / 4) ex_none"
    using reachable_ex_empty put_ex_none by (rule reach_put)
  from size_count_invariant[OF r] show ?thesis using r by (simp add: ex_none_def)
qed




text \<open>
  C5 (growth trigger). Start from \<^verbatim>\<open>HashTable()\<close>: size 8, load factor 0.75, threshold 6.
  Inserting six distinct hashable keys, with any values and any hash values, leaves
  \<open>size = 8\<close>; inserting a seventh key distinct from them makes \<open>size = 16\<close>.
\<close>

theorem growth_at_seventh_key:
  assumes "init 8 (3 / 4) = Inr s0"
    and "length kvs = 6" and "distinct (map fst kvs)"
    and "\<forall>e\<in>set kvs. H (fst e) \<noteq> None"
    and "H k7 \<noteq> None" and "k7 \<notin> fst ` set kvs"
  shows "\<exists>s6 s7. run H s0 (map (\<lambda>(k, v). Put k v) kvs) = (s6, Inr ()) \<and> size_ht s6 = 8 \<and>
           put H s6 k7 v7 = (s7, Inr ()) \<and> size_ht s7 = 16"
proof -
  note i = init_inv[OF assms(1)]
  have le0: "count s0 + int (length kvs) \<le> threshold s0"
    using i(5,6) assms(2) by (simp add: py_int_numeral)
  from rehash_no_grow[OF i(1) assms(4) le0] obtain s6 where
    s6: "rehash H s0 kvs = (s6, Inr ())" "ht_inv H s6" "size_ht s6 = size_ht s0"
      "threshold s6 = threshold s0" by blast
  have "fst ` set kvs \<inter> fst ` set (items s0) = {}" using i(4) by simp
  from put_resize_rehash_ok(3)[OF i(1) assms(4) assms(3) this] s6(1)
  have it6: "set (items s6) = set kvs" and lf6: "load_factor s6 = 3 / 4"
    using i(2,4) by auto
  from assms(3) have "distinct kvs" by (rule distinct_map[THEN iffD1, THEN conjunct1])
  then have "card (set kvs) = 6" using assms(2) by (simp add: distinct_card)
  with inv_count_card[OF s6(2)] it6 have c6: "count s6 = 6" by simp
  have sz6: "size_ht s6 = 8" and th6: "threshold s6 = 6"
    using s6(3,4) i(3,6) by (simp_all add: py_int_numeral)
  have "py_int (of_int 16 * (3 / 4)) = 12" by (simp add: py_int_def)
  then have le: "count s6 \<le> py_int (of_int 16 * load_factor s6)"
    by (simp only: c6 lf6)
  from resize_exact[OF s6(2) is_power_of_two_16 le] obtain s16 where
    s16: "resize H s6 16 = (s16, Inr ())" "ht_inv H s16" "size_ht s16 = 16" by blast
  from assms(5) obtain h where "H k7 = Some h" by auto
  from put_entry_ok[OF s16(2) this, of v7] obtain s7 where
    s7: "put_entry H s16 k7 v7 = (s7, Inr ())" "size_ht s7 = size_ht s16" by blast
  have "put H s6 k7 v7 = (s7, Inr ())"
    using c6 th6 sz6 s16(1) s7(1) by (simp add: put.simps)
  with s6(1) sz6 s7(2) s16(3) show ?thesis by (simp add: rehash_run)
qed

theorem growth_at_seventh_key_witness:
  "init 8 (3 / 4) = Inr ex_empty \<and> length ex_kvs6 = 6 \<and> distinct (map fst ex_kvs6) \<and>
   hash_ex (KInt 6) = Some 6 \<and> KInt 6 \<notin> fst ` set ex_kvs6 \<and>
   run hash_ex ex_empty (map (\<lambda>(k, v). Put k v) ex_kvs6) = (ex_full, Inr ()) \<and>
   size_ht ex_full = 8 \<and>
   put hash_ex ex_full (KInt 6) (Val 6) = (ex_grown7, Inr ()) \<and> size_ht ex_grown7 = 16"
proof -
  have a: "length ex_kvs6 = 6" "distinct (map fst ex_kvs6)"
    "\<forall>e\<in>set ex_kvs6. hash_ex (fst e) \<noteq> None" "hash_ex (KInt 6) \<noteq> None"
    "KInt 6 \<notin> fst ` set ex_kvs6"
    by (simp_all add: ex_kvs6_def)
  from growth_at_seventh_key[OF init_ex_empty a, of "Val 6"] obtain s6 s7 where
    s: "run hash_ex ex_empty (map (\<lambda>(k, v). Put k v) ex_kvs6) = (s6, Inr ())" "size_ht s6 = 8"
      "put hash_ex s6 (KInt 6) (Val 6) = (s7, Inr ())" "size_ht s7 = 16" by blast
  from s(1) have e6: "s6 = ex_full" by (simp only: run_ex_full prod.inject)
  with s(3) have e7: "s7 = ex_grown7" by (simp only: put_ex_full prod.inject)
  have "hash_ex (KInt 6) = Some 6" by simp
  with s e6 e7 init_ex_empty a(1,2,5) show ?thesis by (simp only: simp_thms)
qed

text \<open>
  C6 (shrink). A delete that removes an entry returns its value and then compares the new
  count, \<open>count - 1\<close>, with \<open>threshold div 4\<close>. If \<open>size > 8\<close> and the new count is strictly
  smaller, the table is rebuilt with \<open>size div 2\<close> buckets: the threshold is recomputed and
  every remaining entry sits in the bucket its hash selects under the new size. Otherwise
  the size is unchanged. A size that went down is still at least 8.
\<close>

theorem shrink_after_delete:
  assumes "reachable H n lf s" and "H k = Some h" and "k \<in> set (keys s)"
  shows "\<exists>s' v. delete H s k = (s', Inr v) \<and> (k, v) \<in> set (items s) \<and>
           size_ht s' = (if size_ht s > 8 \<and> count s - 1 < threshold s div 4
                         then size_ht s div 2 else size_ht s) \<and>
           (size_ht s' < size_ht s \<longrightarrow> 8 \<le> size_ht s') \<and>
           int (length (table s')) = size_ht s' \<and>
           threshold s' = py_int (of_int (size_ht s') * load_factor s) \<and>
           placed H (size_ht s') (table s') \<and>
           set (items s') = {e \<in> set (items s). fst e \<noteq> k} \<and>
           count s' = count s - 1"
proof -
  from reachable_inv[OF assms(1)] have inv: "ht_inv H s" by simp
  from assms(3) obtain v where v: "(k, v) \<in> set (items s)" by (auto simp: keys_def)
  from delete_present[OF inv assms(2) v] obtain s' where
    s': "delete H s k = (s', Inr v)" "ht_inv H s'"
      "set (items s') = {e \<in> set (items s). fst e \<noteq> k}" "load_factor s' = load_factor s"
      "size_ht s' = (if size_ht s > 8 \<and> count s - 1 < threshold s div 4
                     then size_ht s div 2 else size_ht s)"
      "size_ht s' < size_ht s \<longrightarrow> 8 \<le> size_ht s'" by blast
  from s'(2) have w: "int (length (table s')) = size_ht s'"
    "threshold s' = py_int (of_int (size_ht s') * load_factor s')"
    "placed H (size_ht s') (table s')"
    by (auto simp: ht_inv_def dest: is_power_of_two_pos)
  have other: "b = v" if "(k, b) \<in> set (items s)" for b
    using eq_key_imp_eq_value[OF inv_distinct_items[OF inv] that v] .
  have "{e \<in> set (items s). fst e \<noteq> k} = set (items s) - {(k, v)}"
  proof (intro set_eqI iffI)
    fix e assume "e \<in> {e \<in> set (items s). fst e \<noteq> k}"
    then show "e \<in> set (items s) - {(k, v)}" by auto
  next
    fix e assume e: "e \<in> set (items s) - {(k, v)}"
    obtain a b where ab: "e = (a, b)" by (cases e)
    with e other[of b] have "a \<noteq> k" by auto
    with e ab show "e \<in> {e \<in> set (items s). fst e \<noteq> k}" by simp
  qed
  then have "card (set (items s')) = card (set (items s)) - 1"
    using s'(3) v by simp
  moreover have "0 < card (set (items s))" using v by (auto simp: card_gt_0_iff)
  ultimately have cnt: "count s' = count s - 1"
    using inv_count_card[OF inv] inv_count_card[OF s'(2)] by simp
  have thr: "threshold s' = py_int (of_int (size_ht s') * load_factor s)"
    using w(2) by (simp only: s'(4))
  show ?thesis
  proof (intro exI conjI)
    show "delete H s k = (s', Inr v)" by (fact s'(1))
    show "(k, v) \<in> set (items s)" by (fact v)
    show "size_ht s' = (if size_ht s > 8 \<and> count s - 1 < threshold s div 4
                        then size_ht s div 2 else size_ht s)" by (fact s'(5))
    show "size_ht s' < size_ht s \<longrightarrow> 8 \<le> size_ht s'" by (fact s'(6))
    show "int (length (table s')) = size_ht s'" by (fact w(1))
    show "threshold s' = py_int (of_int (size_ht s') * load_factor s)" by (fact thr)
    show "placed H (size_ht s') (table s')" by (fact w(3))
    show "set (items s') = {e \<in> set (items s). fst e \<noteq> k}" by (fact s'(3))
    show "count s' = count s - 1" by (fact cnt)
  qed
qed

theorem shrink_after_delete_witness:
  "reachable hash_ex 8 (3 / 4) ex_sparse \<and> hash_ex (KInt 4) = Some 4 \<and>
   KInt 4 \<in> set (keys ex_sparse) \<and>
   delete hash_ex ex_sparse (KInt 4) = (ex_shrunk, Inr (Val 4)) \<and>
   size_ht ex_sparse > 8 \<and> count ex_sparse - 1 < threshold ex_sparse div 4 \<and>
   size_ht ex_shrunk = size_ht ex_sparse div 2 \<and> 8 \<le> size_ht ex_shrunk \<and>
   placed hash_ex (size_ht ex_shrunk) (table ex_shrunk) \<and>
   set (items ex_shrunk) = {e \<in> set (items ex_sparse). fst e \<noteq> KInt 4}"
proof -
  have h: "hash_ex (KInt 4) = Some 4" by simp
  have m: "KInt 4 \<in> set (keys ex_sparse)" by (simp add: keys_def items_def ex_sparse_def)
  have c: "size_ht ex_sparse > 8" "count ex_sparse - 1 < threshold ex_sparse div 4"
    "size_ht ex_sparse div 2 = 8"
    by (simp_all add: ex_sparse_def)
  from shrink_after_delete[OF reachable_ex_sparse h m] obtain s' v where
    s: "delete hash_ex ex_sparse (KInt 4) = (s', Inr v)"
      "size_ht s' = (if size_ht ex_sparse > 8 \<and> count ex_sparse - 1 < threshold ex_sparse div 4
                     then size_ht ex_sparse div 2 else size_ht ex_sparse)"
      "placed hash_ex (size_ht s') (table s')"
      "set (items s') = {e \<in> set (items ex_sparse). fst e \<noteq> KInt 4}" by blast
  from s(1) have e: "s' = ex_shrunk" by (simp only: delete_ex_sparse prod.inject)
  from s(2) c have "size_ht s' = size_ht ex_sparse div 2" "8 \<le> size_ht s'" by simp_all
  with s e reachable_ex_sparse h m c(1,2) delete_ex_sparse show ?thesis
    by (simp only: simp_thms)
qed

text \<open>
  C7 (delete of an absent key). For a hashable key that is not stored (never inserted, or
  removed since), \<^verbatim>\<open>delete\<close> returns \<^verbatim>\<open>None\<close> without raising and the container is
  exactly what it was: same count, same buckets, no shrink.
\<close>

theorem delete_absent_key:
  assumes "reachable H n lf s" and "H k = Some h" and "k \<notin> set (keys s)"
  shows "delete H s k = (s, Inr PyNone)"
proof -
  from reachable_inv[OF assms(1)] have inv: "ht_inv H s" by simp
  from assms(3) have "k \<notin> fst ` set (items s)" by (simp add: keys_def)
  with inv assms(2) show ?thesis by (rule delete_absent)
qed

theorem delete_absent_key_witness:
  "reachable hash_ex 8 (3 / 4) ex_sparse \<and> hash_ex (KInt 0) = Some 0 \<and>
   KInt 0 \<notin> set (keys ex_sparse) \<and>
   delete hash_ex ex_sparse (KInt 0) = (ex_sparse, Inr PyNone)"
proof -
  have h: "hash_ex (KInt 0) = Some 0" by simp
  have a: "KInt 0 \<notin> set (keys ex_sparse)" by (simp add: keys_def items_def ex_sparse_def)
  from delete_absent_key[OF reachable_ex_sparse h a]
  show ?thesis using reachable_ex_sparse h a by (simp only: simp_thms)
qed

text \<open>
  C8 (membership). The claim: \<^verbatim>\<open>key in table\<close> is true exactly when an entry with this key
  is stored, also when the stored value is \<^verbatim>\<open>None\<close>. The code returns
  \<^verbatim>\<open>self.get(key) is not None\<close>: after \<^verbatim>\<open>put(1, None)\<close> the key is stored, \<^verbatim>\<open>keys()\<close> yields
  it, and the membership test answers \<^verbatim>\<open>False\<close>.
\<close>

theorem contains_misses_none_value:
  "put hash_ex ex_empty (KInt 1) PyNone = (ex_none, Inr ()) \<and>
   KInt 1 \<in> set (keys ex_none) \<and> (KInt 1, PyNone) \<in> set (items ex_none) \<and>
   contains hash_ex ex_none (KInt 1) = Inr False"
  using put_ex_none
  by (simp add: keys_def items_def contains_def get_def hash_def py_index_def ex_none_def)



text \<open>
  C10 (bucket index in range). For every hashable key and every reachable container,
  \<^verbatim>\<open>_hash\<close> returns an index \<open>i\<close> with \<open>0 \<le> i < size\<close>, also for a negative hash value;
  the table has exactly \<open>size\<close> buckets, so \<^verbatim>\<open>self.table[index]\<close> reads position \<open>i\<close> and
  never raises \<^verbatim>\<open>IndexError\<close>.
\<close>

theorem bucket_index_in_range:
  assumes "reachable H n lf s" and "H k = Some h"
  shows "hash H s k = Inr (h mod size_ht s) \<and> 0 \<le> h mod size_ht s \<and>
         h mod size_ht s < size_ht s \<and> int (length (table s)) = size_ht s \<and>
         py_index (table s) (h mod size_ht s) = Inr (nat (h mod size_ht s))"
proof -
  from reachable_inv[OF assms(1)] have inv: "ht_inv H s" by simp
  then have "int (length (table s)) = size_ht s"
    by (auto simp: ht_inv_def dest: is_power_of_two_pos)
  with hash_ok[OF inv assms(2)] show ?thesis by simp
qed

theorem bucket_index_in_range_witness:
  "reachable hash_ex 8 (3 / 4) ex_empty \<and> hash_ex (KInt (- 3)) = Some (- 3) \<and>
   hash hash_ex ex_empty (KInt (- 3)) = Inr 5 \<and> (0::int) \<le> 5 \<and> 5 < size_ht ex_empty \<and>
   int (length (table ex_empty)) = size_ht ex_empty \<and>
   py_index (table ex_empty) 5 = Inr 5"
proof -
  have h: "hash_ex (KInt (- 3)) = Some (- 3)" by simp
  have m: "(- 3) mod size_ht ex_empty = 5" by (simp add: ex_empty_def)
  from bucket_index_in_range[OF reachable_ex_empty h]
  show ?thesis using reachable_ex_empty h unfolding m by simp
qed

end
